theory Spec2Isabelle
  imports Main "HOL-Library.Sublist"
begin

section \<open>Values of the Go program\<close>

text \<open>
  A Go \<^verbatim>\<open>string\<close> is a sequence of bytes, and so is an Isabelle \<^typ>\<open>string\<close>
  (a list of 8-bit characters). A rune is a code point, a natural number here.

  An \<^verbatim>\<open>error\<close> result is \<open>None\<close> for \<^verbatim>\<open>nil\<close> and \<open>Some e\<close> otherwise. The
  errors of the two packages and of the library calls they make:
  \<^item> \<open>ErrRouteNotFound\<close>: the package variable of that name (resolver),
  \<^item> \<open>ErrBadPattern\<close>: \<^verbatim>\<open>path.ErrBadPattern\<close>, the only error \<^verbatim>\<open>path.Match\<close> returns,
  \<^item> \<open>ErrIllegalPattern p\<close>: \<^verbatim>\<open>fmt.Errorf("illegal ** pattern: %s", p)\<close> (subtreeMatch),
  \<^item> \<open>ErrNoAuthString\<close>: \<^verbatim>\<open>errors.New("No auth string found.")\<close> (parseBasicString),
  \<^item> \<open>CorruptInputError n\<close>: the error of \<^verbatim>\<open>base64.StdEncoding.DecodeString\<close>.

  A run-time panic ends the call without a result; it is the outcome \<open>Panic\<close>.
\<close>

type_synonym rune = nat

datatype error =
    ErrRouteNotFound
  | ErrBadPattern
  | ErrIllegalPattern string
  | ErrNoAuthString
  | CorruptInputError nat

datatype panic =
    SliceBoundsOutOfRange nat nat
  | IndexOutOfRange nat nat
  | NilDereference

datatype 'a outcome = Panic panic | Return 'a

section \<open>The calls into package strings\<close>

text \<open>
  The source calls \<^verbatim>\<open>strings.HasSuffix\<close>, \<^verbatim>\<open>strings.Count\<close>, \<^verbatim>\<open>strings.SplitN\<close>,
  \<^verbatim>\<open>strings.Split\<close>, \<^verbatim>\<open>strings.Join\<close> and \<^verbatim>\<open>strings.Replace\<close>. Every separator it
  passes to Count, Split and SplitN is one byte long (\<^verbatim>\<open>"/"\<close>, \<^verbatim>\<open>":"\<close>, \<^verbatim>\<open>" "\<close>), so
  these three take the separator as a character.
\<close>

definition HasSuffix :: "string \<Rightarrow> string \<Rightarrow> bool" where
  "HasSuffix s sfx = suffix sfx s"

definition Count :: "string \<Rightarrow> char \<Rightarrow> nat" where
  "Count s sep = length (filter (\<lambda>c. c = sep) s)"

text \<open>\<^verbatim>\<open>strings.IndexByte\<close>: the position of the first \<open>sep\<close>, \<open>None\<close> for Go's \<open>-1\<close>.\<close>

fun IndexByte :: "string \<Rightarrow> char \<Rightarrow> nat option" where
  "IndexByte [] sep = None"
| "IndexByte (c # s) sep =
     (if c = sep then Some 0 else map_option Suc (IndexByte s sep))"

text \<open>
  A slice is a window on a backing array: \<open>backing\<close> holds the array from the slice's
  first element to the array's end, so its length is the slice's capacity, and \<open>len\<close>
  is the slice's length. Indexing \<^verbatim>\<open>a[i]\<close> is checked against the length, slicing
  \<^verbatim>\<open>a[0:k]\<close> against the capacity (Go language specification, "Slice expressions":
  for slices, the upper index bound is the slice capacity rather than the length).
\<close>

record 'a slice =
  backing :: "'a list"
  len :: nat

definition elems :: "'a slice \<Rightarrow> 'a list" where
  "elems a = take (len a) (backing a)"

definition cap :: "'a slice \<Rightarrow> nat" where
  "cap a = length (backing a)"

definition index :: "'a slice \<Rightarrow> nat \<Rightarrow> 'a outcome" where
  "index a i =
     (if i < len a then Return (backing a ! i) else Panic (IndexOutOfRange i (len a)))"

definition slice_to :: "'a slice \<Rightarrow> nat \<Rightarrow> 'a slice outcome" where
  "slice_to a k =
     (if k \<le> cap a then Return \<lparr>backing = backing a, len = k\<rparr>
      else Panic (SliceBoundsOutOfRange k (cap a)))"

text \<open>
  \<^verbatim>\<open>strings.genSplit(s, sep, 0, n)\<close>, which SplitN and Split call, for a one-byte
  separator and \<open>n \<noteq> 0\<close>:
  \<^verbatim>\<open>
    if n < 0 { n = Count(s, sep) + 1 }
    if n > len(s)+1 { n = len(s) + 1 }
    a := make([]string, n)
    n--
    i := 0
    for i < n {
        m := Index(s, sep)
        if m < 0 { break }
        a[i] = s[:m]
        s = s[m+len(sep):]
        i++
    }
    a[i] = s
    return a[:i+1]
  \<close>
  (package \<^verbatim>\<open>strings\<close> of the Go standard library, file \<^verbatim>\<open>strings.go\<close>, in its current
  form, where \<open>n\<close> is first cut down to \<^verbatim>\<open>len(s)+1\<close>). \<open>splitLoop\<close> is the loop with the
  final store: it yields \<^verbatim>\<open>a[0..i]\<close>. The array was made with \<open>n\<close> elements, so the
  elements past \<open>i\<close> are empty strings and the result has capacity \<open>n\<close>.
\<close>

fun splitLoop :: "nat \<Rightarrow> string \<Rightarrow> char \<Rightarrow> string list" where
  "splitLoop 0 s sep = [s]"
| "splitLoop (Suc n) s sep =
     (case IndexByte s sep of
        None \<Rightarrow> [s]
      | Some m \<Rightarrow> take m s # splitLoop n (drop (Suc m) s) sep)"

definition genSplit :: "string \<Rightarrow> char \<Rightarrow> nat \<Rightarrow> string slice" where
  "genSplit s sep n0 =
     (let n = (if n0 > length s + 1 then length s + 1 else n0);
          a = splitLoop (n - 1) s sep
      in \<lparr>backing = a @ replicate (n - length a) [], len = length a\<rparr>)"

text \<open>\<^verbatim>\<open>SplitN(s, sep, n)\<close> for \<open>n > 0\<close>; \<^verbatim>\<open>SplitN(s, sep, 0)\<close> is the nil slice.\<close>

definition SplitN :: "string \<Rightarrow> char \<Rightarrow> nat \<Rightarrow> string slice" where
  "SplitN s sep n = (if n = 0 then \<lparr>backing = [], len = 0\<rparr> else genSplit s sep n)"

text \<open>\<^verbatim>\<open>Split(s, sep)\<close> is \<^verbatim>\<open>genSplit(s, sep, 0, -1)\<close>: the count is \<open>Count(s, sep) + 1\<close>.\<close>

definition Split :: "string \<Rightarrow> char \<Rightarrow> string slice" where
  "Split s sep = genSplit s sep (Count s sep + 1)"

fun Join :: "string list \<Rightarrow> string \<Rightarrow> string" where
  "Join [] sep = []"
| "Join [x] sep = x"
| "Join (x # y # ys) sep = x @ sep @ Join (y # ys) sep"

text \<open>
  \<^verbatim>\<open>strings.Replace(s, old, new, -1)\<close> for a non-empty \<open>old\<close>: every non-overlapping
  occurrence of \<open>old\<close>, found from the left, is replaced by \<open>new\<close>. (The source passes
  the constant \<^verbatim>\<open>"/**"\<close>; the case of an empty \<open>old\<close> is not modelled and returns \<open>s\<close>.)
\<close>

function Replace :: "string \<Rightarrow> string \<Rightarrow> string \<Rightarrow> string" where
  "Replace s old new =
     (if s = [] \<or> old = [] then s
      else if prefix old s then new @ Replace (drop (length old) s) old new
      else hd s # Replace (tl s) old new)"
  by pat_completeness auto
termination
  by (relation "measure (\<lambda>(s, old, new). length s)") auto

declare Replace.simps [simp del]

section \<open>The calls into packages unicode/utf8 and path\<close>

text \<open>
  \<^verbatim>\<open>path.Match\<close> belongs to the Go standard library, not to this repository. The
  resolver's behaviour on concrete routes depends on it, so it is modelled here
  function by function from the library's source (package \<^verbatim>\<open>path\<close>, file
  \<^verbatim>\<open>match.go\<close>, as of Go 1.16 and later): \<open>scanChunk\<close>, \<open>getEsc\<close>, \<open>matchChunk\<close> and
  \<open>Match\<close>, together with \<^verbatim>\<open>utf8.DecodeRuneInString\<close>, which \<open>matchChunk\<close> and \<open>getEsc\<close>
  call.
\<close>

definition RuneError :: rune where
  "RuneError = 0xFFFD"

definition byte :: "char \<Rightarrow> nat" where
  "byte c = of_char c"

text \<open>
  \<^verbatim>\<open>utf8.DecodeRuneInString(s)\<close>: the first code point of \<open>s\<close> and its width in bytes;
  \<open>(RuneError, 0)\<close> for the empty string and \<open>(RuneError, 1)\<close> for an invalid
  encoding. The library's tables \<^verbatim>\<open>first\<close> and \<^verbatim>\<open>acceptRanges\<close> are written out: the
  lead byte gives the width \<open>sz\<close> and the range \<open>lo..hi\<close> the second byte must lie in.
\<close>

fun DecodeRuneInString :: "string \<Rightarrow> rune \<times> nat" where
  "DecodeRuneInString [] = (RuneError, 0)"
| "DecodeRuneInString (c0 # s) =
     (let s0 = byte c0 in
      if s0 < 0x80 then (s0, 1)
      else if s0 < 0xC2 \<or> 0xF4 < s0 then (RuneError, 1)
      else
        let sz = (if s0 < 0xE0 then 2 else if s0 < 0xF0 then 3 else (4::nat));
            lo = (if s0 = 0xE0 then 0xA0 else if s0 = 0xF0 then 0x90 else 0x80);
            hi = (if s0 = 0xED then 0x9F else if s0 = 0xF4 then 0x8F else 0xBF)
        in
          if length s + 1 < sz then (RuneError, 1)
          else
            let s1 = byte (s ! 0) in
            if s1 < lo \<or> hi < s1 then (RuneError, 1)
            else if sz \<le> 2 then ((s0 mod 0x20) * 0x40 + s1 mod 0x40, 2)
            else
              let s2 = byte (s ! 1) in
              if s2 < 0x80 \<or> 0xBF < s2 then (RuneError, 1)
              else if sz \<le> 3 then
                ((s0 mod 0x10) * 0x1000 + (s1 mod 0x40) * 0x40 + s2 mod 0x40, 3)
              else
                let s3 = byte (s ! 2) in
                if s3 < 0x80 \<or> 0xBF < s3 then (RuneError, 1)
                else
                  ((s0 mod 8) * 0x40000 + (s1 mod 0x40) * 0x1000
                     + (s2 mod 0x40) * 0x40 + s3 mod 0x40, 4))"

text \<open>
  \<^verbatim>\<open>scanChunk(pattern)\<close>: the leading stars are dropped (\<open>star\<close> tells whether there was
  one), and the pattern is cut before the next star that is outside a bracket
  expression. \<open>scanTo\<close> is the scanning loop; it returns the chunk and the rest.
  \<^verbatim>\<open>
    for i = 0; i < len(pattern); i++ {
        switch pattern[i] {
        case '\\': if i+1 < len(pattern) { i++ }
        case '[':  inrange = true
        case ']':  inrange = false
        case '*':  if !inrange { break Scan }
        }
    }
    return star, pattern[0:i], pattern[i:]
  \<close>
\<close>

fun dropStars :: "string \<Rightarrow> string" where
  "dropStars [] = []"
| "dropStars (c # s) = (if c = CHR ''*'' then dropStars s else c # s)"

fun scanTo :: "bool \<Rightarrow> string \<Rightarrow> string \<times> string" where
  "scanTo inrange [] = ([], [])"
| "scanTo inrange [c] =
     (if c = CHR ''*'' \<and> \<not> inrange then ([], [c]) else ([c], []))"
| "scanTo inrange (c # d # s) =
     (if c = CHR 0x5C then (case scanTo inrange s of (chunk, rest) \<Rightarrow> (c # d # chunk, rest))
      else if c = CHR ''['' then (case scanTo True (d # s) of (chunk, rest) \<Rightarrow> (c # chunk, rest))
      else if c = CHR '']'' then (case scanTo False (d # s) of (chunk, rest) \<Rightarrow> (c # chunk, rest))
      else if c = CHR ''*'' \<and> \<not> inrange then ([], c # d # s)
      else (case scanTo inrange (d # s) of (chunk, rest) \<Rightarrow> (c # chunk, rest)))"

definition scanChunk :: "string \<Rightarrow> bool \<times> string \<times> string" where
  "scanChunk pattern =
     (case scanTo False (dropStars pattern) of
        (chunk, rest) \<Rightarrow> (pattern \<noteq> [] \<and> hd pattern = CHR ''*'', chunk, rest))"

text \<open>
  \<^verbatim>\<open>getEsc(chunk)\<close>: one possibly escaped character of a bracket expression. The
  results are \<open>(r, nchunk, err)\<close>; as in Go, the named results keep their zero values on
  the early error returns.
\<close>

definition getEsc :: "string \<Rightarrow> rune \<times> string \<times> error option" where
  "getEsc chunk0 =
     (if chunk0 = [] \<or> hd chunk0 = CHR ''-'' \<or> hd chunk0 = CHR '']''
      then (0, [], Some ErrBadPattern)
      else
        let chunk = (if hd chunk0 = CHR 0x5C then tl chunk0 else chunk0) in
        if chunk = [] then (0, [], Some ErrBadPattern)
        else
          (case DecodeRuneInString chunk of
             (r, n) \<Rightarrow>
               let err = (if r = RuneError \<and> n = 1 then Some ErrBadPattern else None);
                   nchunk = drop n chunk
               in (r, nchunk, if nchunk = [] then Some ErrBadPattern else err)))"

text \<open>
  The loop of \<open>matchChunk\<close> that parses the ranges of a bracket expression, after the
  opening bracket and a possible \<^verbatim>\<open>^\<close>. \<open>r\<close> is the character of the name to test,
  \<open>match\<close> and \<open>nrange\<close> are the loop's variables. It returns the error, or \<open>match\<close> and
  the chunk after the closing bracket.
  \<^verbatim>\<open>
    for {
        if len(chunk) > 0 && chunk[0] == ']' && nrange > 0 { chunk = chunk[1:]; break }
        var lo, hi rune
        if lo, chunk, err = getEsc(chunk); err != nil { return "", false, err }
        hi = lo
        if chunk[0] == '-' {
            if hi, chunk, err = getEsc(chunk[1:]); err != nil { return "", false, err }
        }
        if lo <= r && r <= hi { match = true }
        nrange++
    }
  \<close>
  (\<open>getEsc\<close> returns an error when it leaves the chunk empty, so \<^verbatim>\<open>chunk[0]\<close> is in
  range.)
\<close>

function classLoop :: "string \<Rightarrow> rune \<Rightarrow> bool \<Rightarrow> nat \<Rightarrow> error + bool \<times> string" where
  "classLoop chunk r match nrange =
     (if chunk \<noteq> [] \<and> hd chunk = CHR '']'' \<and> nrange > 0 then Inr (match, tl chunk)
      else
        (case getEsc chunk of
           (lo, chunk1, Some e) \<Rightarrow> Inl e
         | (lo, chunk1, None) \<Rightarrow>
             if hd chunk1 = CHR ''-'' then
               (case getEsc (tl chunk1) of
                  (hi, chunk2, Some e) \<Rightarrow> Inl e
                | (hi, chunk2, None) \<Rightarrow>
                    classLoop chunk2 r (match \<or> (lo \<le> r \<and> r \<le> hi)) (nrange + 1))
             else classLoop chunk1 r (match \<or> (lo \<le> r \<and> r \<le> lo)) (nrange + 1)))"
  by pat_completeness auto
termination
proof -
  have width: "0 < n" if "DecodeRuneInString s = (r, n)" "s \<noteq> []" for s r n
    using that by (cases s) (auto simp: Let_def split: if_splits)
  have shorter: "length c' < length c" if "(r, y) = getEsc c" "(c', None) = y" for c r y c'
  proof -
    from that have "getEsc c = (r, c', None)" by simp
    then show ?thesis
      using width by (cases c) (auto simp: getEsc_def Let_def split: if_splits prod.splits)
  qed
  have shorter_tl: "length c' < length c" if "(r, y) = getEsc (tl c)" "(c', None) = y" for c r y c'
    using shorter [OF that] by (cases c) auto
  show ?thesis
    apply (relation "measure (\<lambda>(chunk, r, match, nrange). length chunk)")
      apply simp_all
     apply (blast intro: less_trans shorter shorter_tl)
    apply (blast intro: shorter)
    done
qed


declare classLoop.simps [simp del]

text \<open>
  \<^verbatim>\<open>matchChunk(chunk, s)\<close>: whether the chunk (literals, \<^verbatim>\<open>?\<close>, bracket expressions and
  escapes, no star) matches a beginning of \<open>s\<close>; the result is \<open>(rest, ok, err)\<close>. Once
  the match has failed (\<open>failed\<close>), the loop goes on over the chunk to check its syntax
  and reads \<open>s\<close> no more.
\<close>

function matchChunk_loop :: "string \<Rightarrow> string \<Rightarrow> bool \<Rightarrow> string \<times> bool \<times> error option" where
  "matchChunk_loop [] s failed = (if failed then ([], False, None) else (s, True, None))"
| "matchChunk_loop (c # chunk) s failed0 =
     (let failed = (failed0 \<or> s = []) in
      if c = CHR ''['' then
        (case (if \<not> failed then (case DecodeRuneInString s of (r, n) \<Rightarrow> (r, drop n s))
               else (0, s)) of
           (r, s1) \<Rightarrow>
             (case (if chunk \<noteq> [] \<and> hd chunk = CHR ''^'' then (True, tl chunk)
                    else (False, chunk)) of
                (negated, chunk1) \<Rightarrow>
                  (case classLoop chunk1 r False 0 of
                     Inl e \<Rightarrow> ([], False, Some e)
                   | Inr (match, chunk2) \<Rightarrow>
                       matchChunk_loop chunk2 s1 (failed \<or> match = negated))))
      else if c = CHR ''?'' then
        (if \<not> failed
         then matchChunk_loop chunk (drop (snd (DecodeRuneInString s)) s) (hd s = CHR ''/'')
         else matchChunk_loop chunk s failed)
      else if c = CHR 0x5C then
        (case chunk of
           [] \<Rightarrow> ([], False, Some ErrBadPattern)
         | d # chunk' \<Rightarrow>
             if \<not> failed then matchChunk_loop chunk' (tl s) (d \<noteq> hd s)
             else matchChunk_loop chunk' s failed)
      else
        (if \<not> failed then matchChunk_loop chunk (tl s) (c \<noteq> hd s)
         else matchChunk_loop chunk s failed))"
  by pat_completeness auto
termination
proof -
  have width: "0 < n" if "DecodeRuneInString s = (r, n)" "s \<noteq> []" for s r n
    using that by (cases s) (auto simp: Let_def split: if_splits)
  have shorter: "length c' < length c" if "getEsc c = (r, c', None)" for c r c'
    using that width
    by (cases c) (auto simp: getEsc_def Let_def split: if_splits prod.splits)
  have class_shorter: "length c' \<le> length c"
    if "classLoop c r m k = Inr (m', c')" for c r m k m' c'
    using that
  proof (induction c r m k rule: classLoop.induct)
    case (1 chunk r match nrange)
    show ?case
    proof (cases "chunk \<noteq> [] \<and> hd chunk = CHR '']'' \<and> nrange > 0")
      case True
      with "1.prems" show ?thesis by (auto simp: classLoop.simps [of chunk])
    next
      case False
      have step: "classLoop chunk r match nrange =
          (case getEsc chunk of
             (lo, chunk1, Some e) \<Rightarrow> Inl e
           | (lo, chunk1, None) \<Rightarrow>
               if hd chunk1 = CHR ''-'' then
                 (case getEsc (tl chunk1) of
                    (hi, chunk2, Some e) \<Rightarrow> Inl e
                  | (hi, chunk2, None) \<Rightarrow>
                      classLoop chunk2 r (match \<or> (lo \<le> r \<and> r \<le> hi)) (nrange + 1))
               else classLoop chunk1 r (match \<or> (lo \<le> r \<and> r \<le> lo)) (nrange + 1))"
        by (subst classLoop.simps) (simp only: False if_False)
      obtain lo chunk1 e1 where g1: "getEsc chunk = (lo, chunk1, e1)"
        by (cases "getEsc chunk") auto
      with "1.prems" have e1: "e1 = None"
        by (cases e1) (auto simp: step)
      have l1: "length chunk1 < length chunk" using shorter g1 e1 by blast
      show ?thesis
      proof (cases "hd chunk1 = CHR ''-''")
        case dash: True
        obtain hi chunk2 e2 where g2: "getEsc (tl chunk1) = (hi, chunk2, e2)"
          by (cases "getEsc (tl chunk1)") auto
        with "1.prems" g1 e1 dash have e2: "e2 = None"
          by (cases e2) (auto simp: step)
        have l2: "length chunk2 < length (tl chunk1)" using shorter g2 e2 by blast
        from "1.prems" g1 e1 dash g2 e2
        have "classLoop chunk2 r (match \<or> lo \<le> r \<and> r \<le> hi) (nrange + 1) = Inr (m', c')"
          by (simp add: step)
        with "1.IH"(1) [OF False g1 [symmetric] refl e1 dash g2 [symmetric] refl e2]
        have "length c' \<le> length chunk2" by simp
        with l1 l2 show ?thesis by simp
      next
        case nodash: False
        from "1.prems" g1 e1 nodash
        have "classLoop chunk1 r (match \<or> lo \<le> r \<and> r \<le> lo) (nrange + 1) = Inr (m', c')"
          by (simp add: step)
        with "1.IH"(2) [OF False g1 [symmetric] refl e1 nodash]
        have "length c' \<le> length chunk1" by simp
        with l1 show ?thesis by simp
      qed
    qed
  qed
  have tl_le: "length (tl c) \<le> length c" for c :: string by simp
  show ?thesis
    apply (relation "measure (\<lambda>(chunk, s, failed). length chunk)")
         apply (auto split: if_splits dest!: class_shorter)
    done
qed

definition matchChunk :: "string \<Rightarrow> string \<Rightarrow> string \<times> bool \<times> error option" where
  "matchChunk chunk s = matchChunk_loop chunk s False"


text \<open>
  \<^verbatim>\<open>Match(pattern, name)\<close>. After a chunk that did not match where the name stands, a
  star lets the chunk match further right, at any position before the next \<^verbatim>\<open>/\<close>:
  \<^verbatim>\<open>
    for i := 0; i < len(name) && name[i] != '/'; i++ {
        t, ok, err := matchChunk(chunk, name[i+1:])
        if ok {
            if len(pattern) == 0 && len(t) > 0 { continue }
            name = t
            continue Pattern
        }
        if err != nil { return false, err }
    }
  \<close>
  \<open>starLoop chunk final name\<close> is this loop (\<open>final\<close>: no pattern is left after the
  chunk): \<open>Found t\<close> when it continues the outer loop with the name \<open>t\<close>, \<open>Failed e\<close>
  when it returns the error, \<open>Exhausted\<close> when it ends. \<open>checkRest\<close> is the loop that
  checks the syntax of the rest of the pattern before \<open>Match\<close> returns false.
\<close>

datatype skip = Found string | Failed error | Exhausted

fun starLoop :: "string \<Rightarrow> bool \<Rightarrow> string \<Rightarrow> skip" where
  "starLoop chunk final [] = Exhausted"
| "starLoop chunk final (c # name) =
     (if c = CHR ''/'' then Exhausted
      else
        (case matchChunk chunk name of
           (t, ok, err) \<Rightarrow>
             if ok then (if final \<and> t \<noteq> [] then starLoop chunk final name else Found t)
             else (case err of Some e \<Rightarrow> Failed e | None \<Rightarrow> starLoop chunk final name)))"

function checkRest :: "string \<Rightarrow> error option" where
  "checkRest [] = None"
| "checkRest (p # ps) =
     (case scanChunk (p # ps) of
        (star, chunk, rest) \<Rightarrow>
          (case matchChunk chunk [] of
             (t, ok, Some e) \<Rightarrow> Some e
           | (t, ok, None) \<Rightarrow> checkRest rest))"
  by pat_completeness auto
termination
proof -
  have scan_le: "length rest \<le> length s" if "scanTo inrange s = (chunk, rest)"
    for inrange s chunk rest
    using that
    by (induction inrange s arbitrary: chunk rest rule: scanTo.induct)
       (auto split: if_splits prod.splits)
  have scan_less: "length rest < length s"
    if "scanTo False s = (chunk, rest)" "s \<noteq> []" "hd s \<noteq> CHR ''*''"
    for s chunk rest
  proof (cases s)
    case Nil
    with that show ?thesis by simp
  next
    case (Cons c t)
    show ?thesis
    proof (cases t)
      case Nil
      with Cons that show ?thesis by auto
    next
      case (Cons d u)
      with \<open>s = c # t\<close> that show ?thesis
        by (auto split: if_splits prod.splits dest!: scan_le)
    qed
  qed
  have drop_le: "length (dropStars s) \<le> length s" for s
    by (induction s) auto
  have drop_hd: "dropStars s = [] \<or> hd (dropStars s) \<noteq> CHR ''*''" for s
    by (induction s) auto
  have drop_less: "length (dropStars s) < length s" if "s \<noteq> []" "hd s = CHR ''*''" for s
    using that drop_le [of "tl s"] by (cases s) (auto simp: le_imp_less_Suc)
  have chunk_less: "length rest < length (p # ps)"
    if "scanChunk (p # ps) = (star, chunk, rest)" for p ps star chunk rest
  proof -
    from that have st: "scanTo False (dropStars (p # ps)) = (chunk, rest)"
      by (auto simp: scanChunk_def split: prod.splits)
    show ?thesis
    proof (cases "p = CHR ''*''")
      case True
      then have "length (dropStars (p # ps)) < length (p # ps)"
        using drop_less [of "p # ps"] by simp
      with scan_le [OF st] show ?thesis by simp
    next
      case False
      then have "dropStars (p # ps) = p # ps" by simp
      with st False scan_less [of "p # ps" chunk rest] show ?thesis by simp
    qed
  qed
  show ?thesis
    apply (relation "measure length")
     apply simp
    apply (metis chunk_less in_measure)
    done
qed


function path_Match :: "string \<Rightarrow> string \<Rightarrow> bool \<times> error option" where
  "path_Match [] name = (name = [], None)"
| "path_Match (p # ps) name =
     (case scanChunk (p # ps) of
        (star, chunk, rest) \<Rightarrow>
          if star \<and> chunk = [] then (IndexByte name (CHR ''/'') = None, None)
          else
            (case matchChunk chunk name of
               (t, ok, err) \<Rightarrow>
                 if ok \<and> (t = [] \<or> rest \<noteq> []) then path_Match rest t
                 else if err \<noteq> None then (False, err)
                 else
                   (case (if star then starLoop chunk (rest = []) name else Exhausted) of
                      Found t' \<Rightarrow> path_Match rest t'
                    | Failed e \<Rightarrow> (False, Some e)
                    | Exhausted \<Rightarrow> (False, checkRest rest))))"
  by pat_completeness auto
termination
proof -
  have scan_le: "length rest \<le> length s" if "scanTo inrange s = (chunk, rest)"
    for inrange s chunk rest
    using that
    by (induction inrange s arbitrary: chunk rest rule: scanTo.induct)
       (auto split: if_splits prod.splits)
  have scan_less: "length rest < length s"
    if "scanTo False s = (chunk, rest)" "s \<noteq> []" "hd s \<noteq> CHR ''*''"
    for s chunk rest
  proof (cases s)
    case Nil
    with that show ?thesis by simp
  next
    case (Cons c t)
    show ?thesis
    proof (cases t)
      case Nil
      with Cons that show ?thesis by auto
    next
      case (Cons d u)
      with \<open>s = c # t\<close> that show ?thesis
        by (auto split: if_splits prod.splits dest!: scan_le)
    qed
  qed
  have drop_le: "length (dropStars s) \<le> length s" for s
    by (induction s) auto
  have drop_hd: "dropStars s = [] \<or> hd (dropStars s) \<noteq> CHR ''*''" for s
    by (induction s) auto
  have drop_less: "length (dropStars s) < length s" if "s \<noteq> []" "hd s = CHR ''*''" for s
    using that drop_le [of "tl s"] by (cases s) (auto simp: le_imp_less_Suc)
  have chunk_less: "length rest < length (p # ps)"
    if "scanChunk (p # ps) = (star, chunk, rest)" for p ps star chunk rest
  proof -
    from that have st: "scanTo False (dropStars (p # ps)) = (chunk, rest)"
      by (auto simp: scanChunk_def split: prod.splits)
    show ?thesis
    proof (cases "p = CHR ''*''")
      case True
      then have "length (dropStars (p # ps)) < length (p # ps)"
        using drop_less [of "p # ps"] by simp
      with scan_le [OF st] show ?thesis by simp
    next
      case False
      then have "dropStars (p # ps) = p # ps" by simp
      with st False scan_less [of "p # ps" chunk rest] show ?thesis by simp
    qed
  qed
  show ?thesis
    apply (relation "measure (\<lambda>(pattern, name). length pattern)")
      apply simp
     apply (metis chunk_less in_measure case_prod_conv)
    apply (metis chunk_less in_measure case_prod_conv)
    done
qed

section \<open>The resolver\<close>

text \<open>
  \<^verbatim>\<open>type Resolver struct { paths []string }\<close>; the list is fixed by \<open>NewResolver\<close> and
  never written afterwards. A request is read through \<^verbatim>\<open>req.Method\<close> and
  \<^verbatim>\<open>req.URL.Path\<close> only; \<^verbatim>\<open>req.URL\<close> is a pointer, \<open>None\<close> when it is nil.
\<close>

record Resolver =
  paths :: "string list"

record url =
  Path :: string

record Request =
  Method :: string
  URL :: "url option"

definition NewResolver :: "string list \<Rightarrow> Resolver" where
  "NewResolver ps = \<lparr>paths = ps\<rparr>"

text \<open>
  \<open>subtreeMatch\<close> (a method of the resolver that does not read it). The slice
  expression \<^verbatim>\<open>parts[0:countSlash]\<close> panics when \<open>countSlash\<close> exceeds the capacity of
  \<open>parts\<close>.
\<close>

definition subtreeMatch :: "string \<Rightarrow> string \<Rightarrow> (bool \<times> error option) outcome" where
  "subtreeMatch pathName pattern =
     (if pattern = ''**'' then Return (True, None)
      else
        let countSlash = Count pattern (CHR ''/'') in
        if countSlash = 0 then Return (False, Some (ErrIllegalPattern pattern))
        else
          let parts = SplitN pathName (CHR ''/'') (countSlash + 1) in
          (case slice_to parts countSlash of
             Panic p \<Rightarrow> Panic p
           | Return front \<Rightarrow>
               let pfx = Join (elems front) ''/'';
                   subpattern = Replace pattern ''/**'' []
               in
                 (case path_Match subpattern pfx of
                    (ok, err) \<Rightarrow>
                      if ok \<and> err = None then Return (True, None)
                      else if err \<noteq> None then Return (False, err)
                      else Return (False, None))))"

text \<open>
  The loop of \<open>ResolvePath\<close> over \<^verbatim>\<open>r.paths\<close>. The block guarded by
  \<^verbatim>\<open>strings.HasSuffix(pattern, "**")\<close> returns the pattern when \<open>subtreeMatch\<close> says
  \<open>ok\<close> and drops the error \<open>subtreeMatch\<close> returns (\<^verbatim>\<open>ok, _ :=\<close>); in every other case,
  and when the guard is false, control reaches \<^verbatim>\<open>path.Match\<close>.
\<close>

fun resolveLoop :: "string list \<Rightarrow> string \<Rightarrow> (string \<times> error option) outcome" where
  "resolveLoop [] pathName = Return (pathName, Some ErrRouteNotFound)"
| "resolveLoop (pattern # rest) pathName =
     (case (if HasSuffix pattern ''**'' then subtreeMatch pathName pattern
            else Return (False, None)) of
        Panic p \<Rightarrow> Panic p
      | Return (subtree_ok, dropped) \<Rightarrow>
          if subtree_ok then Return (pattern, None)
          else
            (case path_Match pattern pathName of
               (ok, err) \<Rightarrow>
                 if ok \<and> err = None then Return (pattern, None)
                 else if err \<noteq> None then Return (pathName, err)
                 else resolveLoop rest pathName))"

definition ResolvePath :: "Resolver \<Rightarrow> string \<Rightarrow> (string \<times> error option) outcome" where
  "ResolvePath r pathName = resolveLoop (paths r) pathName"

definition Resolve :: "Resolver \<Rightarrow> Request \<Rightarrow> (string \<times> error option) outcome" where
  "Resolve r req =
     (case URL req of
        None \<Rightarrow> Panic NilDereference
      | Some u \<Rightarrow> ResolvePath r (Method req @ '' '' @ Path u))"

section \<open>The Basic authentication header\<close>

text \<open>
  \<open>parseBasicString\<close> of package auth. \<^verbatim>\<open>base64.StdEncoding.DecodeString\<close> is a
  library function; it is the parameter \<open>DecodeString\<close>, which returns the decoded
  bytes and an error. The results are \<open>(user, pass, err)\<close>.
\<close>

definition parseBasicString ::
  "(string \<Rightarrow> string \<times> error option) \<Rightarrow> string \<Rightarrow> (string \<times> string \<times> error option) outcome"
where
  "parseBasicString DecodeString header =
     (let parts = Split header (CHR '' '') in
      if len parts < 2 then Return ([], [], Some ErrNoAuthString)
      else
        (case index parts 1 of
           Panic p \<Rightarrow> Panic p
         | Return field \<Rightarrow>
             (case DecodeString field of
                (full, err) \<Rightarrow>
                  if err \<noteq> None then Return ([], [], err)
                  else
                    let parts = SplitN full (CHR '':'') 2 in
                    (case index parts 0 of
                       Panic p \<Rightarrow> Panic p
                     | Return user \<Rightarrow>
                         if len parts > 0 then
                           (case index parts 1 of
                              Panic p \<Rightarrow> Panic p
                            | Return pass \<Rightarrow> Return (user, pass, None))
                         else Return (user, [], None)))))"

text \<open>
  The pattern set of \<^verbatim>\<open>TestResolver\<close> (resolver_test.go), in its order.
\<close>

definition testPatterns :: "string list" where
  "testPatterns =
     [''* /loomings'', ''THE /carpet/bag'', ''* /carpet/bag'', ''THE /spouter/inn'',
      ''THE /counterpane/**'', ''* /breakfast/*'', ''* /nantucket/*/*/*'',
      ''* /nantucket/*/*'', ''* /enter/**'', ''**'']"

section \<open>Facts about \<open>path.Match\<close>\<close>

text \<open>
  The only error \<open>path.Match\<close> returns is \<open>ErrBadPattern\<close>, and it never reports a
  match together with an error. The proofs follow the call graph: \<open>getEsc\<close>, the
  bracket loop, \<open>matchChunk\<close>, the two loops of \<open>Match\<close>, and \<open>Match\<close> itself, by
  induction on the length of the pattern that is left.
\<close>

lemma getEsc_err: "getEsc c = (r, c', Some e) \<Longrightarrow> e = ErrBadPattern"
  by (auto simp: getEsc_def Let_def split: if_splits prod.splits)

lemma classLoop_step:
  "\<not> (chunk \<noteq> [] \<and> hd chunk = CHR '']'' \<and> nrange > 0) \<Longrightarrow>
   classLoop chunk r match nrange =
     (case getEsc chunk of
        (lo, chunk1, Some e) \<Rightarrow> Inl e
      | (lo, chunk1, None) \<Rightarrow>
          if hd chunk1 = CHR ''-'' then
            (case getEsc (tl chunk1) of
               (hi, chunk2, Some e) \<Rightarrow> Inl e
             | (hi, chunk2, None) \<Rightarrow>
                 classLoop chunk2 r (match \<or> (lo \<le> r \<and> r \<le> hi)) (nrange + 1))
          else classLoop chunk1 r (match \<or> (lo \<le> r \<and> r \<le> lo)) (nrange + 1))"
  by (subst classLoop.simps) (simp only: if_False)

lemma classLoop_stop:
  "chunk \<noteq> [] \<and> hd chunk = CHR '']'' \<and> nrange > 0 \<Longrightarrow>
   classLoop chunk r match nrange = Inr (match, tl chunk)"
  by (subst classLoop.simps) simp

lemma classLoop_err: "classLoop c r m k = Inl e \<Longrightarrow> e = ErrBadPattern"
proof (induction c r m k rule: classLoop.induct)
  case (1 chunk r match nrange)
  show ?case
  proof (cases "chunk \<noteq> [] \<and> hd chunk = CHR '']'' \<and> nrange > 0")
    case True
    with "1.prems" show ?thesis by (simp add: classLoop_stop)
  next
    case False
    note step = classLoop_step [OF False, of r match]
    obtain lo chunk1 e1 where g1: "getEsc chunk = (lo, chunk1, e1)"
      by (cases "getEsc chunk") auto
    show ?thesis
    proof (cases e1)
      case (Some a)
      with "1.prems" g1 getEsc_err [of chunk lo chunk1 a] show ?thesis by (simp add: step)
    next
      case None
      show ?thesis
      proof (cases "hd chunk1 = CHR ''-''")
        case dash: True
        obtain hi chunk2 e2 where g2: "getEsc (tl chunk1) = (hi, chunk2, e2)"
          by (cases "getEsc (tl chunk1)") auto
        show ?thesis
        proof (cases e2)
          case (Some a)
          with "1.prems" g1 None dash g2 getEsc_err [of "tl chunk1" hi chunk2 a]
          show ?thesis by (simp add: step)
        next
          case e2: None
          from "1.prems" g1 None dash g2 e2
          have "classLoop chunk2 r (match \<or> lo \<le> r \<and> r \<le> hi) (nrange + 1) = Inl e"
            by (simp add: step)
          with "1.IH"(1) [OF False g1 [symmetric] refl None dash g2 [symmetric] refl e2]
          show ?thesis by simp
        qed
      next
        case nodash: False
        from "1.prems" g1 None nodash
        have "classLoop chunk1 r (match \<or> lo \<le> r \<and> r \<le> lo) (nrange + 1) = Inl e"
          by (simp add: step)
        with "1.IH"(2) [OF False g1 [symmetric] refl None nodash]
        show ?thesis by simp
      qed
    qed
  qed
qed

lemma DecodeRuneInString_width: "DecodeRuneInString s = (r, n) \<Longrightarrow> s \<noteq> [] \<Longrightarrow> 0 < n"
  by (cases s) (auto simp: Let_def split: if_splits)

lemma getEsc_shorter: "getEsc c = (r, c', None) \<Longrightarrow> length c' < length c"
  using DecodeRuneInString_width
  by (cases c) (auto simp: getEsc_def Let_def split: if_splits prod.splits)

lemma classLoop_shorter: "classLoop c r m k = Inr (m', c') \<Longrightarrow> length c' \<le> length c"
proof (induction "length c" arbitrary: c m k rule: less_induct)
  case less
  show ?case
  proof (cases "c \<noteq> [] \<and> hd c = CHR '']'' \<and> k > 0")
    case True
    with less.prems show ?thesis by (auto simp: classLoop_stop)
  next
    case False
    note step = classLoop_step [OF False, of r m]
    obtain lo chunk1 e1 where g1: "getEsc c = (lo, chunk1, e1)"
      by (cases "getEsc c") auto
    with less.prems have e1: "e1 = None"
      by (cases e1) (auto simp: step)
    have l1: "length chunk1 < length c" using getEsc_shorter g1 e1 by blast
    show ?thesis
    proof (cases "hd chunk1 = CHR ''-''")
      case dash: True
      obtain hi chunk2 e2 where g2: "getEsc (tl chunk1) = (hi, chunk2, e2)"
        by (cases "getEsc (tl chunk1)") auto
      with less.prems g1 e1 dash have e2: "e2 = None"
        by (cases e2) (auto simp: step)
      have l2: "length chunk2 < length (tl chunk1)" using getEsc_shorter g2 e2 by blast
      from less.prems g1 e1 dash g2 e2
      have "classLoop chunk2 r (m \<or> lo \<le> r \<and> r \<le> hi) (k + 1) = Inr (m', c')"
        by (simp add: step)
      moreover have "length chunk2 < length c" using l1 l2 by simp
      ultimately have "length c' \<le> length chunk2" using less.hyps by blast
      with l1 l2 show ?thesis by simp
    next
      case nodash: False
      from less.prems g1 e1 nodash
      have "classLoop chunk1 r (m \<or> lo \<le> r \<and> r \<le> lo) (k + 1) = Inr (m', c')"
        by (simp add: step)
      with l1 less.hyps have "length c' \<le> length chunk1" by blast
      with l1 show ?thesis by simp
    qed
  qed
qed

lemma matchChunk_loop_err:
  "matchChunk_loop c s f = (t, ok, Some e) \<Longrightarrow> e = ErrBadPattern \<and> \<not> ok"
proof (induction "length c" arbitrary: c s f rule: less_induct)
  case less
  show ?case
  proof (cases c)
    case Nil
    with less.prems show ?thesis by (simp split: if_splits)
  next
    case (Cons a chunk)
    let ?failed = "f \<or> s = []"
    show ?thesis
    proof (cases "a = CHR ''[''")
      case True
      obtain r s1 where rs: "(if \<not> ?failed then (case DecodeRuneInString s of (r, n) \<Rightarrow> (r, drop n s))
               else (0, s)) = (r, s1)"
        by (cases "(if \<not> ?failed then (case DecodeRuneInString s of (r, n) \<Rightarrow> (r, drop n s))
               else (0, s))") auto
      obtain negated chunk1 where nc: "(if chunk \<noteq> [] \<and> hd chunk = CHR ''^'' then (True, tl chunk)
                    else (False, chunk)) = (negated, chunk1)"
        by (cases "(if chunk \<noteq> [] \<and> hd chunk = CHR ''^'' then (True, tl chunk)
                    else (False, chunk))") auto
      then have l1: "length chunk1 \<le> length chunk" by (auto split: if_splits)
      from less.prems Cons True rs nc
      have eq: "(case classLoop chunk1 r False 0 of
                     Inl e \<Rightarrow> ([], False, Some e)
                   | Inr (match, chunk2) \<Rightarrow>
                       matchChunk_loop chunk2 s1 (?failed \<or> match = negated)) = (t, ok, Some e)"
        by (simp add: Let_def)
      show ?thesis
      proof (cases "classLoop chunk1 r False 0")
        case (Inl x)
        with eq classLoop_err [OF Inl] show ?thesis by simp
      next
        case (Inr b)
        obtain match chunk2 where b: "b = (match, chunk2)" by (cases b) auto
        with Inr classLoop_shorter have "length chunk2 \<le> length chunk1" by blast
        with l1 Cons have "length chunk2 < length c" by simp
        moreover from eq Inr b
        have "matchChunk_loop chunk2 s1 (?failed \<or> match = negated) = (t, ok, Some e)" by simp
        ultimately show ?thesis using less.hyps by blast
      qed
    next
      case nb: False
      show ?thesis
      proof (cases "a = CHR ''?''")
        case True
        with less.prems Cons nb
        have "\<exists>s' f'. matchChunk_loop chunk s' f' = (t, ok, Some e)"
          by (auto simp: Let_def split: if_splits)
        with Cons less.hyps [of chunk] show ?thesis by auto
      next
        case nq: False
        show ?thesis
        proof (cases "a = CHR 0x5C")
          case True
          show ?thesis
          proof (cases chunk)
            case Nil
            with less.prems Cons nb nq True show ?thesis by (simp add: Let_def)
          next
            case (Cons d chunk')
            with less.prems \<open>c = a # chunk\<close> nb nq True
            have "\<exists>s' f'. matchChunk_loop chunk' s' f' = (t, ok, Some e)"
              by (auto simp: Let_def split: if_splits)
            with Cons \<open>c = a # chunk\<close> less.hyps [of chunk'] show ?thesis by auto
          qed
        next
          case False
          with less.prems Cons nb nq
          have "\<exists>s' f'. matchChunk_loop chunk s' f' = (t, ok, Some e)"
            by (auto simp: Let_def split: if_splits)
          with Cons less.hyps [of chunk] show ?thesis by auto
        qed
      qed
    qed
  qed
qed

lemma matchChunk_err: "matchChunk c s = (t, ok, Some e) \<Longrightarrow> e = ErrBadPattern \<and> \<not> ok"
  unfolding matchChunk_def by (rule matchChunk_loop_err)

lemma starLoop_err: "starLoop c f n = Failed e \<Longrightarrow> e = ErrBadPattern"
  by (induction c f n rule: starLoop.induct)
     (auto split: if_splits prod.splits option.splits dest: matchChunk_err)

lemma checkRest_err: "checkRest p = Some e \<Longrightarrow> e = ErrBadPattern"
  by (induction p rule: checkRest.induct)
     (auto split: if_splits prod.splits option.splits dest: matchChunk_err)



lemma scanTo_le: "scanTo inrange s = (chunk, rest) \<Longrightarrow> length rest \<le> length s"
  by (induction inrange s arbitrary: chunk rest rule: scanTo.induct)
     (auto split: if_splits prod.splits)

lemma scanTo_less:
  assumes "scanTo False s = (chunk, rest)" and "s \<noteq> []" and "hd s \<noteq> CHR ''*''"
  shows "length rest < length s"
proof (cases s)
  case Nil
  with assms show ?thesis by simp
next
  case (Cons c t)
  show ?thesis
  proof (cases t)
    case Nil
    with Cons assms show ?thesis by auto
  next
    case (Cons d u)
    with \<open>s = c # t\<close> assms show ?thesis
      by (auto split: if_splits prod.splits dest!: scanTo_le)
  qed
qed

lemma dropStars_le: "length (dropStars s) \<le> length s"
  by (induction s) auto

lemma scanChunk_shorter:
  assumes "scanChunk (p # ps) = (star, chunk, rest)"
  shows "length rest < length (p # ps)"
proof -
  from assms have st: "scanTo False (dropStars (p # ps)) = (chunk, rest)"
    by (auto simp: scanChunk_def split: prod.splits)
  show ?thesis
  proof (cases "p = CHR ''*''")
    case True
    then have "length (dropStars (p # ps)) < length (p # ps)"
      using dropStars_le [of ps] by simp
    with scanTo_le [OF st] show ?thesis by simp
  next
    case False
    then have "dropStars (p # ps) = p # ps" by simp
    with st False scanTo_less [of "p # ps" chunk rest] show ?thesis by simp
  qed
qed

lemma path_Match_err: "path_Match p n = (ok, Some e) \<Longrightarrow> e = ErrBadPattern \<and> \<not> ok"
proof (induction "length p" arbitrary: p n rule: less_induct)
  case less
  show ?case
  proof (cases p)
    case Nil
    with less.prems show ?thesis by simp
  next
    case (Cons a ps)
    obtain star chunk rest where sc: "scanChunk (a # ps) = (star, chunk, rest)"
      by (cases "scanChunk (a # ps)") auto
    have shorter: "length rest < length p"
      using scanChunk_shorter [OF sc] Cons by simp
    note IH = less.hyps [OF shorter]
    show ?thesis
    proof (cases "star \<and> chunk = []")
      case True
      with less.prems Cons sc show ?thesis by simp
    next
      case False
      obtain t mok err where mc: "matchChunk chunk n = (t, mok, err)"
        by (cases "matchChunk chunk n") auto
      show ?thesis
      proof (cases "mok \<and> (t = [] \<or> rest \<noteq> [])")
        case True
        with less.prems Cons sc False mc have "path_Match rest t = (ok, Some e)" by simp
        then show ?thesis by (rule IH)
      next
        case nomatch: False
        show ?thesis
        proof (cases err)
          case (Some x)
          with less.prems Cons sc False mc nomatch matchChunk_err [of chunk n t mok x]
          show ?thesis by simp
        next
          case None
          show ?thesis
          proof (cases "if star then starLoop chunk (rest = []) n else Exhausted")
            case (Found t')
            with less.prems Cons sc False mc nomatch None
            have "path_Match rest t' = (ok, Some e)" by simp
            then show ?thesis by (rule IH)
          next
            case (Failed x)
            then have "starLoop chunk (rest = []) n = Failed x" by (simp split: if_splits)
            from starLoop_err [OF this] less.prems Cons sc False mc nomatch None Failed
            show ?thesis by simp
          next
            case Exhausted
            with less.prems Cons sc False mc nomatch None
            have "checkRest rest = Some e" and "\<not> ok" by simp_all
            with checkRest_err show ?thesis by blast
          qed
        qed
      qed
    qed
  qed
qed

section \<open>Facts about the resolver's loop\<close>

text \<open>
  A pattern that, registered alone, leaves the descriptor unresolved
  (\<open>ErrRouteNotFound\<close>) is passed over by the loop; any other outcome of a pattern
  (a match, an error of \<open>path.Match\<close>, a panic) ends the loop there.
\<close>

lemma resolveLoop_pass:
  assumes "resolveLoop [x] D = Return (D, Some ErrRouteNotFound)"
  shows "resolveLoop (x # ys) D = resolveLoop ys D"
  using assms
  by (auto split: outcome.splits prod.splits if_splits dest: path_Match_err)

lemma resolveLoop_stop:
  assumes "resolveLoop [x] D \<noteq> Return (D, Some ErrRouteNotFound)"
  shows "resolveLoop (x # ys) D = resolveLoop [x] D"
  using assms
  by (auto split: outcome.splits prod.splits if_splits)

lemma resolveLoop_skip:
  assumes "\<forall>x\<in>set xs. resolveLoop [x] D = Return (D, Some ErrRouteNotFound)"
  shows "resolveLoop (xs @ ys) D = resolveLoop ys D"
  using assms
proof (induction xs)
  case Nil
  then show ?case by simp
next
  case (Cons x xs)
  then show ?case using resolveLoop_pass [of x D "xs @ ys"] by simp
qed


lemma resolveLoop_result:
  assumes "resolveLoop ps D = Return (s, err)"
  shows "(err = None \<longrightarrow> s \<in> set ps) \<and>
         (\<forall>e. err = Some e \<longrightarrow> s = D \<and> (e = ErrRouteNotFound \<or> e = ErrBadPattern))"
  using assms
proof (induction ps)
  case Nil
  then show ?case by auto
next
  case (Cons p ps)
  show ?case
  proof (cases "resolveLoop [p] D = Return (D, Some ErrRouteNotFound)")
    case True
    with Cons resolveLoop_pass [OF True, of ps] show ?thesis by auto
  next
    case False
    from resolveLoop_stop [OF False, of ps] Cons.prems
    have "resolveLoop [p] D = Return (s, err)" by simp
    then show ?thesis
      by (auto split: outcome.splits prod.splits if_splits dest: path_Match_err)
  qed
qed

lemma resolveLoop_first:
  assumes "resolveLoop ps D = Return (q, None)"
  shows "\<exists>xs ys. ps = xs @ q # ys
           \<and> (\<forall>x\<in>set xs. resolveLoop [x] D = Return (D, Some ErrRouteNotFound))
           \<and> resolveLoop [q] D = Return (q, None)"
  using assms
proof (induction ps)
  case Nil
  then show ?case by simp
next
  case (Cons p ps)
  show ?case
  proof (cases "resolveLoop [p] D = Return (D, Some ErrRouteNotFound)")
    case True
    with Cons.prems resolveLoop_pass [OF True, of ps]
    have "resolveLoop ps D = Return (q, None)" by simp
    from Cons.IH [OF this] obtain xs ys where
      "ps = xs @ q # ys"
      "\<forall>x\<in>set xs. resolveLoop [x] D = Return (D, Some ErrRouteNotFound)"
      "resolveLoop [q] D = Return (q, None)" by blast
    with True have "p # ps = (p # xs) @ q # ys
        \<and> (\<forall>x\<in>set (p # xs). resolveLoop [x] D = Return (D, Some ErrRouteNotFound))
        \<and> resolveLoop [q] D = Return (q, None)" by simp
    then show ?thesis by blast
  next
    case False
    from resolveLoop_stop [OF False, of ps] Cons.prems
    have one: "resolveLoop [p] D = Return (q, None)" by simp
    then have "q = p" using resolveLoop_result [OF one] by simp
    with one have "p # ps = [] @ q # ps
        \<and> (\<forall>x\<in>set []. resolveLoop [x] D = Return (D, Some ErrRouteNotFound))
        \<and> resolveLoop [q] D = Return (q, None)" by simp
    then show ?thesis by blast
  qed
qed

lemma resolveLoop_not_found:
  assumes "resolveLoop ps D = Return (s, Some ErrRouteNotFound)"
  shows "\<forall>p\<in>set ps. resolveLoop [p] D = Return (D, Some ErrRouteNotFound)"
  using assms
proof (induction ps)
  case Nil
  then show ?case by simp
next
  case (Cons p ps)
  show ?case
  proof (cases "resolveLoop [p] D = Return (D, Some ErrRouteNotFound)")
    case True
    with Cons resolveLoop_pass [OF True, of ps] show ?thesis by simp
  next
    case False
    from resolveLoop_stop [OF False, of ps] Cons.prems
    have one: "resolveLoop [p] D = Return (s, Some ErrRouteNotFound)" by simp
    from resolveLoop_result [OF one] have "s = D" by simp
    with one False show ?thesis by simp
  qed
qed

lemma resolveLoop_pass_glob:
  assumes "resolveLoop [p] D = Return (D, Some ErrRouteNotFound)"
  shows "path_Match p D = (False, None)"
  using assms
  by (auto split: outcome.splits prod.splits if_splits dest: path_Match_err)

section \<open>Facts about splitting and joining\<close>

text \<open>
  What \<open>SplitN\<close> returns: at least one element, and a capacity that is the requested
  count or, if that is smaller, the length of the string plus one.
\<close>

lemma IndexByte_None: "IndexByte s c = None \<longleftrightarrow> c \<notin> set s"
  by (induction s) auto

lemma IndexByte_Some:
  "IndexByte s c = Some m \<Longrightarrow> s = take m s @ c # drop (Suc m) s \<and> c \<notin> set (take m s)"
  by (induction s arbitrary: m) (auto split: if_splits)

lemma IndexByte_append:
  "c \<notin> set a \<Longrightarrow> IndexByte (a @ c # b) c = Some (length a)"
  by (induction a) auto

lemma Count_0: "Count s c = 0 \<longleftrightarrow> c \<notin> set s"
  by (induction s) (auto simp: Count_def)

lemma Count_append: "Count (a @ b) c = Count a c + Count b c"
  by (simp add: Count_def)

lemma Count_Cons: "Count (x # s) c = (if x = c then Suc (Count s c) else Count s c)"
  by (simp add: Count_def)

lemma Count_le_length: "Count s c \<le> length s"
  by (simp add: Count_def)

text \<open>A string with at least one separator splits at its first one.\<close>

lemma first_separator:
  assumes "0 < Count s c"
  obtains a b where "s = a @ c # b" and "c \<notin> set a" and "Count b c = Count s c - 1"
proof -
  from assms have "c \<in> set s" using Count_0 [of s c] by auto
  then obtain m where m: "IndexByte s c = Some m"
    using IndexByte_None [of s c] by (cases "IndexByte s c") auto
  from IndexByte_Some [OF m] have s: "s = take m s @ c # drop (Suc m) s" and n: "c \<notin> set (take m s)"
    by auto
  have "Count s c = Count (take m s) c + Suc (Count (drop (Suc m) s) c)"
    by (subst s) (simp add: Count_append Count_Cons)
  with n have "Count (drop (Suc m) s) c = Count s c - 1" using Count_0 [of "take m s" c] by simp
  with s n that show thesis by blast
qed

text \<open>
  Run on a string with exactly \<open>n\<close> separators, the loop yields \<open>n + 1\<close> pieces whose
  join is the string, however many more rounds it is allowed.
\<close>

lemma splitLoop_exact:
  "Count s c = n \<Longrightarrow> n \<le> m \<Longrightarrow>
     splitLoop m s c = splitLoop n s c \<and> length (splitLoop n s c) = Suc n
     \<and> Join (splitLoop n s c) [c] = s"
proof (induction n arbitrary: s m)
  case 0
  then have "IndexByte s c = None" by (simp add: Count_0 IndexByte_None)
  then show ?case by (cases m) auto
next
  case (Suc n)
  then have "0 < Count s c" by simp
  then obtain a b where s: "s = a @ c # b" and a: "c \<notin> set a" and b: "Count b c = Count s c - 1"
    by (rule first_separator)
  from b Suc.prems have bn: "Count b c = n" by simp
  obtain m' where m': "m = Suc m'" and le: "n \<le> m'" using Suc.prems by (cases m) auto
  have ix: "IndexByte s c = Some (length a)" using s a IndexByte_append by simp
  have td: "take (length a) s = a" "drop (Suc (length a)) s = b" using s by simp_all
  from Suc.IH [OF bn le] have IH: "splitLoop m' b c = splitLoop n b c"
    "length (splitLoop n b c) = Suc n" "Join (splitLoop n b c) [c] = b" by simp_all
  have ne: "splitLoop n b c \<noteq> []" using IH(2) by auto
  then obtain y ys where yys: "splitLoop n b c = y # ys" by (cases "splitLoop n b c") auto
  have "Join (a # splitLoop n b c) [c] = a @ [c] @ Join (splitLoop n b c) [c]"
    by (simp add: yys)
  with IH s have "Join (a # splitLoop n b c) [c] = s" by simp
  with ix td IH m' show ?case by simp
qed

text \<open>With one more separator after the first \<open>n\<close>, the loop stops there.\<close>

lemma splitLoop_head:
  "Count x c = n \<Longrightarrow> splitLoop (Suc n) (x @ c # rest) c = splitLoop n x c @ [rest]"
proof (induction n arbitrary: x)
  case 0
  then have "c \<notin> set x" by (simp add: Count_0)
  then show ?case
    using IndexByte_append [of c x rest] by (simp add: IndexByte_None)
next
  case (Suc n)
  then have "0 < Count x c" by simp
  then obtain a b where x: "x = a @ c # b" and a: "c \<notin> set a" and b: "Count b c = Count x c - 1"
    by (rule first_separator)
  from b Suc.prems have bn: "Count b c = n" by simp
  have ix: "IndexByte (x @ c # rest) c = Some (length a)"
    using x a IndexByte_append [of c a "b @ c # rest"] by simp
  have ix': "IndexByte x c = Some (length a)" using x a IndexByte_append by simp
  have td: "take (length a) (x @ c # rest) = a" "drop (Suc (length a)) (x @ c # rest) = b @ c # rest"
    "take (length a) x = a" "drop (Suc (length a)) x = b"
    using x by simp_all
  from Suc.IH [OF bn] ix ix' td show ?case by simp
qed


lemma nth_separator:
  "n < Count s c \<Longrightarrow> \<exists>x rest. s = x @ c # rest \<and> Count x c = n"
proof (induction n arbitrary: s)
  case 0
  then obtain a b where "s = a @ c # b" "c \<notin> set a" by (rule first_separator)
  then show ?case using Count_0 [of a c] by blast
next
  case (Suc n)
  then have "0 < Count s c" by simp
  then obtain a b where s: "s = a @ c # b" and a: "c \<notin> set a" and b: "Count b c = Count s c - 1"
    by (rule first_separator)
  from b Suc.prems have "n < Count b c" by simp
  from Suc.IH [OF this] obtain x rest where xr: "b = x @ c # rest" "Count x c = n" by blast
  have "s = (a @ c # x) @ c # rest" using s xr by simp
  moreover have "Count (a @ c # x) c = Suc n"
    using a xr Count_0 [of a c] by (simp add: Count_append Count_Cons)
  ultimately show ?case by blast
qed

lemma slice_to_SplitN:
  assumes "Count x (CHR ''/'') = n" and "D = x \<or> D = x @ CHR ''/'' # rest"
  shows "\<exists>front. slice_to (SplitN D (CHR ''/'') (Suc n + 1)) (Suc n) = Return front
           \<and> Join (elems front) ''/'' = x"
proof -
  let ?c = "CHR ''/''"
  from splitLoop_exact [OF assms(1) le_refl]
  have ex: "length (splitLoop n x ?c) = Suc n" "Join (splitLoop n x ?c) [?c] = x" by simp_all
  from assms(2) show ?thesis
  proof
    assume D: "D = x"
    define n' where "n' = (if Suc n + 1 > length D + 1 then length D + 1 else Suc n + 1)"
    have "n \<le> length D" using Count_le_length [of x ?c] assms(1) D by simp
    then have n': "Suc n \<le> n'" "n \<le> n' - 1" by (auto simp: n'_def)
    from splitLoop_exact [OF assms(1) n'(2)] D
    have a: "splitLoop (n' - 1) D ?c = splitLoop n x ?c" by simp
    have "SplitN D ?c (Suc n + 1)
        = \<lparr>backing = splitLoop n x ?c @ replicate (n' - Suc n) [], len = Suc n\<rparr>"
      unfolding SplitN_def genSplit_def Let_def using a ex(1) by (simp add: n'_def)
    with ex n' show ?thesis by (simp add: slice_to_def cap_def elems_def)
  next
    assume D: "D = x @ ?c # rest"
    have "Suc n \<le> length D" using Count_le_length [of x ?c] assms(1) D by simp
    then have n': "\<not> Suc n + 1 > length D + 1" by simp
    from splitLoop_head [OF assms(1), of rest] D
    have a: "splitLoop (Suc n) D ?c = splitLoop n x ?c @ [rest]" by simp
    have "SplitN D ?c (Suc n + 1)
        = \<lparr>backing = splitLoop n x ?c @ [rest], len = Suc (Suc n)\<rparr>"
      unfolding SplitN_def genSplit_def Let_def using a ex(1) n' by simp
    with ex show ?thesis by (simp add: slice_to_def cap_def elems_def)
  qed
qed

lemma Replace_keep:
  "s \<noteq> [] \<Longrightarrow> old \<noteq> [] \<Longrightarrow> \<not> prefix old s \<Longrightarrow>
   Replace s old new = hd s # Replace (tl s) old new"
  by (subst Replace.simps) simp

lemma Replace_trailing:
  "\<not> sublist ''/**'' P \<Longrightarrow> Replace (P @ ''/**'') ''/**'' [] = P"
proof (induction P)
  case Nil
  show ?case by (simp add: Replace.simps [of "''/**''"] Replace.simps [of "[]"])
next
  case (Cons c P)
  have no: "\<not> sublist ''/**'' P" using Cons.prems by (auto simp: sublist_Cons_right)
  have np: "\<not> prefix ''/**'' (c # P)" using Cons.prems by (auto simp: sublist_Cons_right)
  have "\<not> prefix ''/**'' ((c # P) @ ''/**'')"
  proof
    assume p: "prefix ''/**'' ((c # P) @ ''/**'')"
    show False
    proof (cases P)
      case Nil
      with p show False by simp
    next
      case (Cons d P')
      show False
      proof (cases P')
        case Nil
        with p Cons show False by simp
      next
        case (Cons e P'')
        with p \<open>P = d # P'\<close> np show False by auto
      qed
    qed
  qed
  from Replace_keep [OF _ _ this, of "[]"]
  have "Replace ((c # P) @ ''/**'') ''/**'' [] = c # Replace (P @ ''/**'') ''/**'' []"
    by simp
  with Cons.IH [OF no] show ?case by simp
qed

lemma splitLoop_length: "0 < length (splitLoop n s sep) \<and> length (splitLoop n s sep) \<le> Suc n"
  by (induction n s sep rule: splitLoop.induct) (auto split: option.splits)

lemma genSplit_len: "0 < n \<Longrightarrow> 0 < len (genSplit s sep n)"
  using splitLoop_length by (simp add: genSplit_def Let_def)

lemma genSplit_cap: "0 < n \<Longrightarrow> cap (genSplit s sep n) = min n (length s + 1)"
proof -
  assume "0 < n"
  define n' where "n' = (if n > length s + 1 then length s + 1 else n)"
  have "length (splitLoop (n' - 1) s sep) \<le> Suc (n' - 1)"
    using splitLoop_length by blast
  moreover have "0 < n'" using \<open>0 < n\<close> by (simp add: n'_def)
  ultimately have "length (splitLoop (n' - 1) s sep) \<le> n'" by simp
  then show ?thesis
    by (auto simp: genSplit_def Let_def cap_def n'_def min_def)
qed

lemma SplitN_guard_always_true: "0 < len (SplitN full sep 2)"
  by (simp add: SplitN_def genSplit_len)

lemma SplitN_no_separator:
  assumes "sep \<notin> set full"
  shows "len (SplitN full sep 2) = 1" and "index (SplitN full sep 2) 0 = Return full"
proof -
  from assms have none: "IndexByte full sep = None" by (simp add: IndexByte_None)
  have one: "splitLoop k full sep = [full]" for k
    using none by (cases k) auto
  show "len (SplitN full sep 2) = 1"
    by (simp add: SplitN_def genSplit_def Let_def one)
  then show "index (SplitN full sep 2) 0 = Return full"
    by (simp add: index_def) (simp add: SplitN_def genSplit_def Let_def one)
qed

text \<open>
  For a pattern \<open>P\<close> followed by \<^verbatim>\<open>/**\<close>, and a descriptor that is a text \<open>x\<close> with as many
  separators as \<open>P\<close>, alone or followed by a separator and more text, \<open>subtreeMatch\<close>
  matches \<open>P\<close> against \<open>x\<close>.
\<close>

lemma subtreeMatch_prefix:
  assumes "\<not> sublist ''/**'' P"
    and "Count x (CHR ''/'') = Count P (CHR ''/'')"
    and "D = x \<or> D = x @ CHR ''/'' # rest"
  shows "subtreeMatch D (P @ ''/**'') =
     (case path_Match P x of
        (ok, err) \<Rightarrow>
          if ok \<and> err = None then Return (True, None)
          else if err \<noteq> None then Return (False, err)
          else Return (False, None))"
proof -
  have k: "Count (P @ ''/**'') (CHR ''/'') = Suc (Count P (CHR ''/''))"
    by (simp add: Count_append) (simp add: Count_def)
  from slice_to_SplitN [OF assms(2) assms(3)] obtain front where
    front: "slice_to (SplitN D (CHR ''/'') (Suc (Count P (CHR ''/'')) + 1)) (Suc (Count P (CHR ''/'')))
        = Return front" "Join (elems front) ''/'' = x"
    by blast
  show ?thesis
    unfolding subtreeMatch_def Let_def k
    using front Replace_trailing [OF assms(1)] by simp
qed

text \<open>
  When \<open>subtreeMatch\<close> panics: exactly when the pattern, other than \<^verbatim>\<open>**\<close>, has more
  separators than the descriptor has bytes plus one, so that the slice expression
  exceeds the capacity \<open>SplitN\<close> allocated. With patterns that stay below this bound
  \<open>ResolvePath\<close> returns.
\<close>

lemma subtreeMatch_panics:
  "subtreeMatch D p = Panic x \<longleftrightarrow>
     p \<noteq> ''**'' \<and> length D + 1 < Count p (CHR ''/'')
     \<and> x = SliceBoundsOutOfRange (Count p (CHR ''/'')) (length D + 1)"
proof (cases "p = ''**'' \<or> Count p (CHR ''/'') = 0")
  case True
  then show ?thesis by (auto simp: subtreeMatch_def)
next
  case False
  then have k: "0 < Count p (CHR ''/'') + 1" by simp
  show ?thesis
    using False genSplit_cap [OF k, of D "CHR ''/''"]
    by (auto simp: subtreeMatch_def Let_def SplitN_def slice_to_def min_def
        split: prod.splits)
qed

lemma resolveLoop_completes:
  "\<forall>p\<in>set ps. Count p (CHR ''/'') \<le> length D + 1 \<Longrightarrow> \<exists>s err. resolveLoop ps D = Return (s, err)"
proof (induction ps)
  case Nil
  show ?case by simp
next
  case (Cons p ps)
  have "\<nexists>x. subtreeMatch D p = Panic x" using Cons.prems by (simp add: subtreeMatch_panics)
  then obtain ok e where "subtreeMatch D p = Return (ok, e)"
    by (cases "subtreeMatch D p") auto
  with Cons show ?case by (auto split: prod.splits)
qed

lemma ResolvePath_completes:
  "\<forall>p\<in>set (paths r). Count p (CHR ''/'') \<le> length D + 1 \<Longrightarrow>
   \<exists>s err. ResolvePath r D = Return (s, err)"
  unfolding ResolvePath_def by (rule resolveLoop_completes)

text \<open>The error that \<open>subtreeMatch\<close> builds for an illegal pattern never leaves \<open>ResolvePath\<close>.\<close>

lemma ResolvePath_never_illegal:
  "ResolvePath r D \<noteq> Return (s, Some (ErrIllegalPattern q))"
  using resolveLoop_result [of "paths r" D s "Some (ErrIllegalPattern q)"]
  by (auto simp: ResolvePath_def)

text \<open>The scenarios of \<^verbatim>\<open>testResolver\<close>, one by one.\<close>

lemma scenario_loomings:
  "ResolvePath (NewResolver testPatterns) ''GET /loomings'' = Return (''* /loomings'', None)"
  unfolding testPatterns_def by code_simp

lemma scenario_carpet_the:
  "ResolvePath (NewResolver testPatterns) ''THE /carpet/bag'' = Return (''THE /carpet/bag'', None)"
  unfolding testPatterns_def by code_simp

lemma scenario_carpet_post:
  "ResolvePath (NewResolver testPatterns) ''POST /carpet/bag'' = Return (''* /carpet/bag'', None)"
  unfolding testPatterns_def by code_simp

lemma scenario_breakfast:
  "ResolvePath (NewResolver testPatterns) ''POST /breakfast/123'' = Return (''* /breakfast/*'', None)"
  unfolding testPatterns_def by code_simp

lemma scenario_nantucket3:
  "ResolvePath (NewResolver testPatterns) ''HEAD /nantucket/1/2/3'' = Return (''* /nantucket/*/*/*'', None)"
  unfolding testPatterns_def by code_simp

lemma scenario_nantucket2:
  "ResolvePath (NewResolver testPatterns) ''PUT /nantucket/1/2'' = Return (''* /nantucket/*/*'', None)"
  unfolding testPatterns_def by code_simp

lemma scenario_counterpane:
  "ResolvePath (NewResolver testPatterns) ''THE /counterpane/1/2/3/4'' = Return (''THE /counterpane/**'', None)"
  unfolding testPatterns_def by code_simp

lemma scenario_anything:
  "ResolvePath (NewResolver testPatterns) ''THIS /SHOULD/match/ANYTHING'' = Return (''**'', None)"
  unfolding testPatterns_def by code_simp

lemma scenario_enter:
  "ResolvePath (NewResolver testPatterns) ''GET /enter/ahab/to/him/stubb/the/pipe'' = Return (''* /enter/**'', None)"
  unfolding testPatterns_def by code_simp

lemma scenario_request:
  "Resolve (NewResolver testPatterns) \<lparr>Method = ''GET'', URL = Some \<lparr>Path = ''/nantucket/1/2/3''\<rparr>\<rparr>
     = Return (''* /nantucket/*/*/*'', None)"
  unfolding testPatterns_def by code_simp

section \<open>The claims\<close>

text \<open>
  C7. \<open>Resolve\<close> on a request with method \<open>V\<close> and URL path \<open>P\<close> returns exactly what
  \<open>ResolvePath\<close> returns on the descriptor \<open>V\<close>, one space, \<open>P\<close> (the same pattern, the
  same error, the same panic).
\<close>

theorem Resolve_joins_verb_and_path:
  "Resolve r \<lparr>Method = V, URL = Some \<lparr>Path = P\<rparr>\<rparr> = ResolvePath r (V @ '' '' @ P)"
  by (simp add: Resolve_def)

text \<open>
  C10. Whenever \<open>ResolvePath\<close> returns an error, the string it returns is the descriptor
  it was given, and the error is \<open>ErrRouteNotFound\<close> or the glob syntax error; when it
  returns no error, the string is one of the registered patterns.
\<close>

theorem ResolvePath_failure_keeps_descriptor:
  assumes "ResolvePath r D = Return (s, err)"
  shows "(\<forall>e. err = Some e \<longrightarrow> s = D \<and> (e = ErrRouteNotFound \<or> e = ErrBadPattern))
         \<and> (err = None \<longrightarrow> s \<in> set (paths r))"
  using resolveLoop_result [of "paths r" D s err] assms
  by (simp add: ResolvePath_def)

theorem ResolvePath_failure_keeps_descriptor_witness:
  "(\<exists>s e. ResolvePath (NewResolver [''a'', ''['']) ''b'' = Return (s, Some e)
      \<and> s = ''b'' \<and> e = ErrBadPattern)
   \<and> (\<exists>s. ResolvePath (NewResolver [''a'', ''['']) ''a'' = Return (s, None)
      \<and> s \<in> set (paths (NewResolver [''a'', ''[''])))"
proof -
  have bad: "ResolvePath (NewResolver [''a'', ''['']) ''b'' = Return (''b'', Some ErrBadPattern)"
    by code_simp
  have good: "ResolvePath (NewResolver [''a'', ''['']) ''a'' = Return (''a'', None)"
    by code_simp
  from ResolvePath_failure_keeps_descriptor [OF bad] ResolvePath_failure_keeps_descriptor [OF good]
    bad good
  show ?thesis by simp
qed

text \<open>
  C6. The pattern \<^verbatim>\<open>**\<close> matches every descriptor: in any pattern set that contains it,
  if every pattern registered before it is evaluated without a match and without
  failing (alone, each leaves the descriptor unresolved), \<open>ResolvePath\<close> returns
  \<^verbatim>\<open>**\<close> with no error, whatever is registered after it.
\<close>

theorem universal_wildcard_matches:
  assumes "\<forall>x\<in>set xs. ResolvePath (NewResolver [x]) D = Return (D, Some ErrRouteNotFound)"
  shows "ResolvePath (NewResolver (xs @ ''**'' # ys)) D = Return (''**'', None)"
proof -
  have "resolveLoop (''**'' # ys) D = Return (''**'', None)"
    by (simp add: HasSuffix_def subtreeMatch_def)
  with assms show ?thesis
    by (simp add: ResolvePath_def NewResolver_def resolveLoop_skip)
qed

theorem universal_wildcard_matches_witness:
  "ResolvePath (NewResolver [''GET /a'']) ''hello'' = Return (''hello'', Some ErrRouteNotFound)
   \<and> ResolvePath (NewResolver ([''GET /a''] @ ''**'' # [''hello''])) ''hello''
       = Return (''**'', None)"
proof -
  have h: "\<forall>x\<in>set [''GET /a''].
      ResolvePath (NewResolver [x]) ''hello'' = Return (''hello'', Some ErrRouteNotFound)"
    by code_simp
  from universal_wildcard_matches [OF h, of "[''hello'']"] h show ?thesis by simp
qed

text \<open>
  C5 says that, for every pattern set and descriptor, of two patterns that both match
  the descriptor the earlier-registered one is returned. As stated this fails when a
  pattern registered before them ends the call: in the set \<^verbatim>\<open>[\<close>, \<^verbatim>\<open>a*\<close>, \<^verbatim>\<open>*\<close> the
  patterns \<^verbatim>\<open>a*\<close> and \<^verbatim>\<open>*\<close> both match the descriptor \<^verbatim>\<open>ab\<close>, yet \<open>ResolvePath\<close> returns
  the descriptor with the syntax error of the malformed first pattern; and in the set
  \<^verbatim>\<open>GET /a/**\<close>, \<^verbatim>\<open>**\<close>, \<^verbatim>\<open>*\<close> the last two both match the empty descriptor, yet the
  call panics at the first pattern.
\<close>

theorem earlier_failure_preempts_match:
  "ResolvePath (NewResolver [''a*'']) ''ab'' = Return (''a*'', None)
   \<and> ResolvePath (NewResolver [''*'']) ''ab'' = Return (''*'', None)
   \<and> ResolvePath (NewResolver [''['', ''a*'', ''*'']) ''ab'' = Return (''ab'', Some ErrBadPattern)
   \<and> ResolvePath (NewResolver [''**'']) [] = Return (''**'', None)
   \<and> ResolvePath (NewResolver [''*'']) [] = Return (''*'', None)
   \<and> ResolvePath (NewResolver [''GET /a/**'', ''**'', ''*'']) []
       = Panic (SliceBoundsOutOfRange 2 1)"
  by code_simp

text \<open>
  C5, amended. Patterns are tried in registration order and the first success ends
  the resolution, provided no pattern registered before the first matching one fails.
  First part: when a pattern \<open>p\<close> matches the descriptor and every pattern registered
  before it was evaluated without a match and without failing (no error of
  \<open>path.Match\<close>, no panic: alone, each leaves the descriptor unresolved),
  \<open>ResolvePath\<close> returns \<open>p\<close>, whatever follows it: later patterns that match, that are
  malformed or that would panic change nothing, so none of them is evaluated. Second
  part: whenever \<open>ResolvePath\<close> succeeds, the pattern it returns is the first one of the
  list that matches.
\<close>

theorem first_match_wins:
  "((\<forall>x\<in>set xs. ResolvePath (NewResolver [x]) D = Return (D, Some ErrRouteNotFound))
      \<and> ResolvePath (NewResolver [p]) D = Return (p, None)
    \<longrightarrow> ResolvePath (NewResolver (xs @ p # ys)) D = Return (p, None))
   \<and> (ResolvePath r D = Return (q, None)
    \<longrightarrow> (\<exists>xs ys. paths r = xs @ q # ys
           \<and> (\<forall>x\<in>set xs. ResolvePath (NewResolver [x]) D = Return (D, Some ErrRouteNotFound))
           \<and> ResolvePath (NewResolver [q]) D = Return (q, None)))"
proof (intro conjI impI)
  assume a: "(\<forall>x\<in>set xs. ResolvePath (NewResolver [x]) D = Return (D, Some ErrRouteNotFound))
      \<and> ResolvePath (NewResolver [p]) D = Return (p, None)"
  then have "resolveLoop [p] D \<noteq> Return (D, Some ErrRouteNotFound)"
    by (simp add: ResolvePath_def NewResolver_def)
  from resolveLoop_stop [OF this, of ys] a
  show "ResolvePath (NewResolver (xs @ p # ys)) D = Return (p, None)"
    by (simp add: ResolvePath_def NewResolver_def resolveLoop_skip)
next
  assume "ResolvePath r D = Return (q, None)"
  then have "resolveLoop (paths r) D = Return (q, None)" by (simp add: ResolvePath_def)
  from resolveLoop_first [OF this]
  show "\<exists>xs ys. paths r = xs @ q # ys
           \<and> (\<forall>x\<in>set xs. ResolvePath (NewResolver [x]) D = Return (D, Some ErrRouteNotFound))
           \<and> ResolvePath (NewResolver [q]) D = Return (q, None)"
    by (simp add: ResolvePath_def NewResolver_def)
qed

theorem first_match_wins_witness:
  "ResolvePath (NewResolver [''THE /x'']) ''GET /a/b'' = Return (''GET /a/b'', Some ErrRouteNotFound)
   \<and> ResolvePath (NewResolver [''* /a/*'']) ''GET /a/b'' = Return (''* /a/*'', None)
   \<and> ResolvePath (NewResolver [''* /a/b'']) ''GET /a/b'' = Return (''* /a/b'', None)
   \<and> ResolvePath (NewResolver ([''THE /x''] @ ''* /a/*'' # [''* /a/b'', ''['']))
         ''GET /a/b'' = Return (''* /a/*'', None)
   \<and> (\<exists>xs ys. paths (NewResolver [''THE /x'', ''* /a/*'', ''* /a/b'', ''['']) = xs @ ''* /a/*'' # ys)"
proof -
  have h1: "ResolvePath (NewResolver [''THE /x'']) ''GET /a/b''
      = Return (''GET /a/b'', Some ErrRouteNotFound)"
    by code_simp
  have h2: "ResolvePath (NewResolver [''* /a/*'']) ''GET /a/b'' = Return (''* /a/*'', None)"
    by code_simp
  have h3: "ResolvePath (NewResolver [''* /a/b'']) ''GET /a/b'' = Return (''* /a/b'', None)"
    by code_simp
  have first: "ResolvePath (NewResolver ([''THE /x''] @ ''* /a/*'' # [''* /a/b'', ''['']))
      ''GET /a/b'' = Return (''* /a/*'', None)"
    using first_match_wins [of "[''THE /x'']" "''GET /a/b''" "''* /a/*''" "[''* /a/b'', ''['']",
        THEN conjunct1] h1 h2
    by simp
  then have "ResolvePath (NewResolver [''THE /x'', ''* /a/*'', ''* /a/b'', ''['']) ''GET /a/b''
      = Return (''* /a/*'', None)"
    by simp
  from first_match_wins [THEN conjunct2, rule_format, OF this]
  have "\<exists>xs ys. paths (NewResolver [''THE /x'', ''* /a/*'', ''* /a/b'', ''['']) = xs @ ''* /a/*'' # ys"
    by blast
  with h1 h2 h3 first show ?thesis by simp
qed


text \<open>
  C2. With the pattern set of the test, \<open>ResolvePath\<close> returns, with no error, the
  expected pattern for each of the nine descriptors of the test, and \<open>Resolve\<close> on the
  request with method \<^verbatim>\<open>GET\<close> and path \<^verbatim>\<open>/nantucket/1/2/3\<close> returns
  \<^verbatim>\<open>* /nantucket/*/*/*\<close>.
\<close>

theorem TestResolver_scenarios:
  "ResolvePath (NewResolver testPatterns) ''GET /loomings'' = Return (''* /loomings'', None)
   \<and> ResolvePath (NewResolver testPatterns) ''THE /carpet/bag'' = Return (''THE /carpet/bag'', None)
   \<and> ResolvePath (NewResolver testPatterns) ''POST /carpet/bag'' = Return (''* /carpet/bag'', None)
   \<and> ResolvePath (NewResolver testPatterns) ''POST /breakfast/123'' = Return (''* /breakfast/*'', None)
   \<and> ResolvePath (NewResolver testPatterns) ''HEAD /nantucket/1/2/3''
         = Return (''* /nantucket/*/*/*'', None)
   \<and> ResolvePath (NewResolver testPatterns) ''PUT /nantucket/1/2'' = Return (''* /nantucket/*/*'', None)
   \<and> ResolvePath (NewResolver testPatterns) ''THE /counterpane/1/2/3/4''
         = Return (''THE /counterpane/**'', None)
   \<and> ResolvePath (NewResolver testPatterns) ''THIS /SHOULD/match/ANYTHING'' = Return (''**'', None)
   \<and> ResolvePath (NewResolver testPatterns) ''GET /enter/ahab/to/him/stubb/the/pipe''
         = Return (''* /enter/**'', None)
   \<and> Resolve (NewResolver testPatterns) \<lparr>Method = ''GET'', URL = Some \<lparr>Path = ''/nantucket/1/2/3''\<rparr>\<rparr>
         = Return (''* /nantucket/*/*/*'', None)"
  by (intro conjI scenario_loomings scenario_carpet_the scenario_carpet_post scenario_breakfast
      scenario_nantucket3 scenario_nantucket2 scenario_counterpane scenario_anything
      scenario_enter scenario_request)

text \<open>
  C1 says that a pattern that ends in \<^verbatim>\<open>**\<close>, is not \<^verbatim>\<open>**\<close> itself and has no \<^verbatim>\<open>/\<close>
  makes \<open>ResolvePath\<close> return a pattern-syntax error and is never skipped silently. The
  code at such a pattern, \<^verbatim>\<open>GET **\<close>: \<open>subtreeMatch\<close> builds the error, \<open>ResolvePath\<close>
  drops it and goes on to \<open>path.Match\<close>; for the descriptor \<^verbatim>\<open>GET /foo\<close> the pattern is
  skipped and the later pattern \<^verbatim>\<open>**\<close> is returned, for \<^verbatim>\<open>GET foo\<close> the illegal pattern
  itself is returned as the match, both with no error.
\<close>

theorem illegal_pattern_error_is_dropped:
  "subtreeMatch ''GET /foo'' ''GET **'' = Return (False, Some (ErrIllegalPattern ''GET **''))
   \<and> ResolvePath (NewResolver [''GET **'', ''**'']) ''GET /foo'' = Return (''**'', None)
   \<and> ResolvePath (NewResolver [''GET **'']) ''GET foo'' = Return (''GET **'', None)"
  by code_simp

text \<open>
  C3 says that \<open>ResolvePath\<close> returns for every pattern set and descriptor, the split
  and re-join of the descriptor being total. The code on the empty descriptor, with a
  pattern that has two separators: \<open>SplitN\<close> returns one element with capacity one and
  the slice expression \<^verbatim>\<open>parts[0:2]\<close> panics. The same through \<open>Resolve\<close>, for the request
  \<^verbatim>\<open>GET /\<close> and a pattern with seven separators.
\<close>

theorem short_descriptor_panics:
  "ResolvePath (NewResolver [''GET /a/**'']) [] = Panic (SliceBoundsOutOfRange 2 1)
   \<and> Resolve (NewResolver [''* /a/b/c/d/e/f/**'']) \<lparr>Method = ''GET'', URL = Some \<lparr>Path = ''/''\<rparr>\<rparr>
       = Panic (SliceBoundsOutOfRange 7 6)"
  by code_simp

text \<open>
  C4 says that a pattern \<open>P\<close> followed by \<^verbatim>\<open>/**\<close> matches a descriptor exactly when the
  descriptor begins with \<open>P\<close> followed by \<^verbatim>\<open>/\<close>, or matches the whole pattern as a plain
  glob. As stated this fails: the descriptor \<^verbatim>\<open>GET /foo\<close>, which has no \<^verbatim>\<open>/\<close> after the
  prefix and does not match the whole pattern as a glob, is matched by
  \<^verbatim>\<open>GET /foo/**\<close>.
\<close>

theorem subtree_pattern_matches_bare_prefix:
  "ResolvePath (NewResolver [''GET /foo'' @ ''/**'']) ''GET /foo''
     = Return (''GET /foo'' @ ''/**'', None)
   \<and> \<not> prefix (''GET /foo'' @ ''/'') ''GET /foo''
   \<and> path_Match (''GET /foo'' @ ''/**'') ''GET /foo'' = (False, None)"
  by code_simp

text \<open>
  C4, amended. Let \<open>P\<close> contain no \<^verbatim>\<open>/**\<close> and let the descriptor \<open>D\<close> have at least as
  many \<^verbatim>\<open>/\<close> as \<open>P\<close>. Then \<open>ResolvePath\<close> treats the pattern \<open>P\<close> followed by \<^verbatim>\<open>/**\<close> as
  matching \<open>D\<close> exactly when \<open>D\<close> is a text \<open>X\<close>, or begins with a text \<open>X\<close> followed by
  \<^verbatim>\<open>/\<close> and arbitrary remaining text, where \<open>X\<close> has as many \<^verbatim>\<open>/\<close> as \<open>P\<close> and matches \<open>P\<close>
  as a glob; or when \<open>D\<close> matches the whole pattern as a plain glob.
\<close>

theorem subtree_pattern_matches:
  assumes "\<not> sublist ''/**'' P" and "Count P (CHR ''/'') \<le> Count D (CHR ''/'')"
  shows "ResolvePath (NewResolver [P @ ''/**'']) D = Return (P @ ''/**'', None)
     \<longleftrightarrow> (\<exists>X rest. (D = X \<or> D = X @ ''/'' @ rest)
            \<and> Count X (CHR ''/'') = Count P (CHR ''/'') \<and> path_Match P X = (True, None))
         \<or> path_Match (P @ ''/**'') D = (True, None)"
proof -
  let ?c = "CHR ''/''"
  let ?p = "P @ ''/**''"
  obtain X0 rest0 where X0: "D = X0 \<or> D = X0 @ ?c # rest0" "Count X0 ?c = Count P ?c"
  proof (cases "Count P ?c = Count D ?c")
    case True
    then show ?thesis using that [of D] by simp
  next
    case False
    with assms(2) have "Count P ?c < Count D ?c" by simp
    from nth_separator [OF this] show ?thesis using that by blast
  qed
  have unique: "X = X0"
    if "D = X \<or> D = X @ ?c # rest" "Count X ?c = Count P ?c" for X rest
  proof -
    from slice_to_SplitN [OF that(2) that(1)] slice_to_SplitN [OF X0(2) X0(1)]
    show ?thesis by auto
  qed
  have suffix: "HasSuffix ?p ''**''"
    by (simp add: HasSuffix_def suffix_def)
  have loop: "resolveLoop [?p] D = Return (?p, None)
      \<longleftrightarrow> path_Match P X0 = (True, None) \<or> path_Match ?p D = (True, None)"
    using subtreeMatch_prefix [OF assms(1) X0(2) X0(1)] suffix
    by (auto split: prod.splits if_splits dest: path_Match_err)
  have "(\<exists>X rest. (D = X \<or> D = X @ ''/'' @ rest)
            \<and> Count X ?c = Count P ?c \<and> path_Match P X = (True, None))
      \<longleftrightarrow> path_Match P X0 = (True, None)"
  proof
    assume "\<exists>X rest. (D = X \<or> D = X @ ''/'' @ rest)
            \<and> Count X ?c = Count P ?c \<and> path_Match P X = (True, None)"
    then obtain X rest where "D = X \<or> D = X @ ?c # rest" "Count X ?c = Count P ?c"
      "path_Match P X = (True, None)" by auto
    with unique show "path_Match P X0 = (True, None)" by blast
  next
    assume "path_Match P X0 = (True, None)"
    with X0 show "\<exists>X rest. (D = X \<or> D = X @ ''/'' @ rest)
            \<and> Count X ?c = Count P ?c \<and> path_Match P X = (True, None)"
      by (intro exI [of _ X0] exI [of _ rest0]) simp
  qed
  with loop show ?thesis by (simp add: ResolvePath_def NewResolver_def)
qed

theorem subtree_pattern_matches_witness:
  "\<not> sublist ''/**'' ''* /enter''
   \<and> Count ''* /enter'' (CHR ''/'') \<le> Count ''GET /enter/ahab/to'' (CHR ''/'')
   \<and> path_Match ''* /enter'' ''GET /enter'' = (True, None)
   \<and> ResolvePath (NewResolver [''* /enter'' @ ''/**'']) ''GET /enter/ahab/to''
       = Return (''* /enter'' @ ''/**'', None)"
proof -
  have h1: "\<not> sublist ''/**'' ''* /enter''" by code_simp
  have h2: "Count ''* /enter'' (CHR ''/'') \<le> Count ''GET /enter/ahab/to'' (CHR ''/'')"
    by code_simp
  have m: "path_Match ''* /enter'' ''GET /enter'' = (True, None)" by code_simp
  have c: "Count ''GET /enter'' (CHR ''/'') = Count ''* /enter'' (CHR ''/'')" by code_simp
  have "\<exists>X rest. (''GET /enter/ahab/to'' = X \<or> ''GET /enter/ahab/to'' = X @ ''/'' @ rest)
      \<and> Count X (CHR ''/'') = Count ''* /enter'' (CHR ''/'')
      \<and> path_Match ''* /enter'' X = (True, None)"
    using m c by (intro exI [of _ "''GET /enter''"] exI [of _ "''ahab/to''"]) simp
  with subtree_pattern_matches [OF h1 h2] h1 h2 m show ?thesis by blast
qed

text \<open>
  C8. A malformed glob met in the plain-glob step is a hard error: when every earlier
  pattern was passed over, the step is reached for \<open>p\<close> (\<open>p\<close> has no \<^verbatim>\<open>**\<close> suffix, or
  \<open>subtreeMatch\<close> returned without a match) and \<open>path.Match\<close> returns an error,
  \<open>ResolvePath\<close> returns that error, whatever follows \<open>p\<close> in the list; the error is the
  syntax error. And \<open>ErrRouteNotFound\<close>, a different error, is returned only when
  \<open>path.Match\<close> returned no match and no error for every pattern of the set, each
  pattern having been evaluated without a match and without a hard error.
\<close>

theorem malformed_glob_aborts:
  "((\<forall>x\<in>set xs. ResolvePath (NewResolver [x]) D = Return (D, Some ErrRouteNotFound))
      \<and> (HasSuffix p ''**'' \<longrightarrow> (\<exists>dropped. subtreeMatch D p = Return (False, dropped)))
      \<and> path_Match p D = (ok, Some e)
    \<longrightarrow> ResolvePath (NewResolver (xs @ p # ys)) D = Return (D, Some e) \<and> e = ErrBadPattern)
   \<and> (ResolvePath r D = Return (s, Some ErrRouteNotFound)
    \<longrightarrow> (\<forall>p\<in>set (paths r). path_Match p D = (False, None)
           \<and> ResolvePath (NewResolver [p]) D = Return (D, Some ErrRouteNotFound)))
   \<and> ErrRouteNotFound \<noteq> ErrBadPattern"
proof (intro conjI impI)
  assume a: "(\<forall>x\<in>set xs. ResolvePath (NewResolver [x]) D = Return (D, Some ErrRouteNotFound))
      \<and> (HasSuffix p ''**'' \<longrightarrow> (\<exists>dropped. subtreeMatch D p = Return (False, dropped)))
      \<and> path_Match p D = (ok, Some e)"
  then have bad: "e = ErrBadPattern \<and> \<not> ok" using path_Match_err by blast
  from a bad have "resolveLoop (p # ys) D = Return (D, Some e)" by auto
  with a show "ResolvePath (NewResolver (xs @ p # ys)) D = Return (D, Some e)"
    by (simp add: ResolvePath_def NewResolver_def resolveLoop_skip)
  from bad show "e = ErrBadPattern" by simp
next
  assume "ResolvePath r D = Return (s, Some ErrRouteNotFound)"
  then have "resolveLoop (paths r) D = Return (s, Some ErrRouteNotFound)"
    by (simp add: ResolvePath_def)
  from resolveLoop_not_found [OF this]
  show "\<forall>p\<in>set (paths r). path_Match p D = (False, None)
           \<and> ResolvePath (NewResolver [p]) D = Return (D, Some ErrRouteNotFound)"
    using resolveLoop_pass_glob by (simp add: ResolvePath_def NewResolver_def)
next
  show "ErrRouteNotFound \<noteq> ErrBadPattern" by simp
qed

theorem malformed_glob_aborts_witness:
  "ResolvePath (NewResolver [''GET /a'']) ''GET /b'' = Return (''GET /b'', Some ErrRouteNotFound)
   \<and> \<not> HasSuffix ''GET /['' ''**''
   \<and> path_Match ''GET /['' ''GET /b'' = (False, Some ErrBadPattern)
   \<and> ResolvePath (NewResolver ([''GET /a''] @ ''GET /['' # [''**''])) ''GET /b''
       = Return (''GET /b'', Some ErrBadPattern)
   \<and> ResolvePath (NewResolver [''GET /a'', ''POST /*'']) ''GET /b''
       = Return (''GET /b'', Some ErrRouteNotFound)
   \<and> path_Match ''GET /a'' ''GET /b'' = (False, None)
   \<and> path_Match ''POST /*'' ''GET /b'' = (False, None)"
proof -
  have h1: "\<forall>x\<in>set [''GET /a''].
      ResolvePath (NewResolver [x]) ''GET /b'' = Return (''GET /b'', Some ErrRouteNotFound)"
    by code_simp
  have h2: "\<not> HasSuffix ''GET /['' ''**''" by code_simp
  have h3: "path_Match ''GET /['' ''GET /b'' = (False, Some ErrBadPattern)" by code_simp
  have h4: "ResolvePath (NewResolver [''GET /a'', ''POST /*'']) ''GET /b''
      = Return (''GET /b'', Some ErrRouteNotFound)"
    by code_simp
  from malformed_glob_aborts [of "[''GET /a'']" "''GET /b''" "''GET /[''" False ErrBadPattern
      "[''**'']", THEN conjunct1, THEN mp] h1 h2 h3
  have a: "ResolvePath (NewResolver ([''GET /a''] @ ''GET /['' # [''**''])) ''GET /b''
      = Return (''GET /b'', Some ErrBadPattern)"
    by simp
  from malformed_glob_aborts [THEN conjunct2, THEN conjunct1, THEN mp, OF h4]
  have b: "path_Match ''GET /a'' ''GET /b'' = (False, None)
      \<and> path_Match ''POST /*'' ''GET /b'' = (False, None)"
    by (simp add: NewResolver_def)
  from h1 h2 h3 h4 a b show ?thesis by simp
qed

text \<open>
  C9. In \<open>parseBasicString\<close> the guard \<^verbatim>\<open>len(parts) > 0\<close> that follows the split of the
  decoded credentials on \<^verbatim>\<open>:\<close> with limit 2 is true for every input, so \<^verbatim>\<open>parts[1]\<close> is
  read whenever the split is reached. For decoded credentials without a \<^verbatim>\<open>:\<close> the split
  has one part only, and the read of the second part happens all the same: the call
  ends in an index-out-of-range panic; no error is returned.
\<close>

theorem parseBasicString_password_guard:
  "(\<forall>full. 0 < len (SplitN full (CHR '':'') 2))
   \<and> (index (Split header (CHR '' '')) 1 = Return field
        \<and> DecodeString field = (full, None) \<and> CHR '':'' \<notin> set full
      \<longrightarrow> parseBasicString DecodeString header = Panic (IndexOutOfRange 1 1))"
proof (intro conjI allI impI)
  fix full' :: string
  show "0 < len (SplitN full' (CHR '':'') 2)" by (rule SplitN_guard_always_true)
next
  assume a: "index (Split header (CHR '' '')) 1 = Return field
        \<and> DecodeString field = (full, None) \<and> CHR '':'' \<notin> set full"
  then have two: "\<not> len (Split header (CHR '' '')) < 2"
    by (auto simp: index_def split: if_splits)
  from a have nosep: "CHR '':'' \<notin> set full" by simp
  have "index (SplitN full (CHR '':'') 2) 1 = Panic (IndexOutOfRange 1 1)"
    using SplitN_no_separator(1) [OF nosep] by (simp add: index_def)
  with a two SplitN_no_separator [OF nosep] show
    "parseBasicString DecodeString header = Panic (IndexOutOfRange 1 1)"
    by (simp add: parseBasicString_def Let_def)
qed

theorem parseBasicString_password_guard_witness:
  "index (Split ''Basic dXNlcg=='' (CHR '' '')) 1 = Return ''dXNlcg==''
   \<and> CHR '':'' \<notin> set ''user''
   \<and> parseBasicString (\<lambda>s. if s = ''dXNlcg=='' then (''user'', None) else ([], Some (CorruptInputError 0)))
        ''Basic dXNlcg=='' = Panic (IndexOutOfRange 1 1)"
proof -
  have h: "index (Split ''Basic dXNlcg=='' (CHR '' '')) 1 = Return ''dXNlcg==''"
    by code_simp
  have n: "CHR '':'' \<notin> set ''user''" by simp
  from parseBasicString_password_guard [of "''Basic dXNlcg==''" "''dXNlcg==''"
      "\<lambda>s. if s = ''dXNlcg=='' then (''user'', None) else ([], Some (CorruptInputError 0))" "''user''",
      THEN conjunct2] h n
  show ?thesis by simp
qed

end
